theory Spec2Isabelle
  imports Complex_Main
begin

section \<open>The pager of the support table\<close>

text \<open>
  The component \<^verbatim>\<open>SupportTable\<close> keeps the tickets that match the search term in
  \<^verbatim>\<open>allTickets\<close>, the page shown in \<^verbatim>\<open>currentPage\<close>, and derives from them the
  number of pages, the list of pager entries and the handler of a click on the pager.
  The entries of the JavaScript array \<^verbatim>\<open>pages\<close> are numbers and the string
  \<^verbatim>\<open>'...'\<close>; they are the two constructors of \<open>token\<close>. Page numbers are JavaScript
  numbers holding integers, modelled by \<open>int\<close>; the length of an array is a \<open>nat\<close>.
\<close>

datatype token = Page int | Ellipsis

definition ITEMS_PER_PAGE :: int where
  "ITEMS_PER_PAGE = 10"

definition PAGE_RANGE :: int where
  "PAGE_RANGE = 2"

subsection \<open>Number of pages\<close>

text \<open>
  \<^verbatim>\<open>Math.ceil(allTickets.length / ITEMS_PER_PAGE)\<close>. The page size is a parameter of
  \<open>totalPagesWith\<close>; the component uses it at \<open>ITEMS_PER_PAGE\<close>. The quotient is taken
  in the reals: for an array length and a page size of 10 the double quotient lies
  strictly between the same two integers as the exact one, so the ceilings agree.
\<close>

definition totalPagesWith :: "int \<Rightarrow> nat \<Rightarrow> int" where
  "totalPagesWith pageSize len = \<lceil>real len / real_of_int pageSize\<rceil>"

definition totalPagesOf :: "nat \<Rightarrow> int" where
  "totalPagesOf len = totalPagesWith ITEMS_PER_PAGE len"

subsection \<open>The click handler\<close>

text \<open>
  \<^verbatim>\<open>handlePageChange\<close> calls \<^verbatim>\<open>setCurrentPage(page)\<close> under its guard and does nothing
  otherwise; the function returns the value of \<^verbatim>\<open>currentPage\<close> after the call.
\<close>

definition handlePageChange :: "int \<Rightarrow> int \<Rightarrow> int \<Rightarrow> int" where
  "handlePageChange totalPages currentPage page =
     (if page \<ge> 1 \<and> page \<le> totalPages then page else currentPage)"

subsection \<open>The list of pager entries\<close>

text \<open>The loop of the first branch: \<^verbatim>\<open>for (let i = 1; i <= totalPages; i++) pages.push(i)\<close>.\<close>

function push_all :: "int \<Rightarrow> int \<Rightarrow> token list \<Rightarrow> token list" where
  "push_all i totalPages pages =
     (if i \<le> totalPages then push_all (i + 1) totalPages (pages @ [Page i]) else pages)"
  by pat_completeness auto
termination
  by (relation "measure (\<lambda>(i, totalPages, pages). nat (totalPages + 1 - i))") auto

text \<open>
  The loop over the window, from \<^verbatim>\<open>leftBound\<close> to \<^verbatim>\<open>rightBound\<close>, with its two
  guards: \<^verbatim>\<open>i !== 1 || pages.includes(1)\<close>, and inside it the skip of
  \<^verbatim>\<open>totalPages\<close> when the array holds it already.
\<close>

function push_window :: "int \<Rightarrow> int \<Rightarrow> int \<Rightarrow> token list \<Rightarrow> token list" where
  "push_window totalPages i rightBound pages =
     (if i \<le> rightBound then
        push_window totalPages (i + 1) rightBound
          (if i \<noteq> 1 \<or> Page 1 \<in> set pages then
             (if i = totalPages \<and> Page totalPages \<in> set pages then pages
              else pages @ [Page i])
           else pages)
      else pages)"
  by pat_completeness auto
termination
  by (relation "measure (\<lambda>(totalPages, i, rightBound, pages). nat (rightBound + 1 - i))") auto

declare push_all.simps [simp del] push_window.simps [simp del]

text \<open>
  \<^verbatim>\<open>[...new Set(pages)]\<close>: a \<^verbatim>\<open>Set\<close> keeps its elements in insertion order and ignores
  the insertion of a value it holds, so the result lists each value of \<^verbatim>\<open>pages\<close> once,
  at its first position. The first argument is the content of the set so far.
\<close>

fun Set_add_all :: "token list \<Rightarrow> token list \<Rightarrow> token list" where
  "Set_add_all seen [] = seen"
| "Set_add_all seen (x # xs) =
     (if x \<in> set seen then Set_add_all seen xs else Set_add_all (seen @ [x]) xs)"

text \<open>
  The array \<^verbatim>\<open>pages\<close> as the body of the \<^verbatim>\<open>useMemo\<close> callback builds it, before the
  last line removes the duplicates. \<^verbatim>\<open>PAGE_RANGE\<close> is a parameter here.
\<close>

definition pagesBuilt :: "int \<Rightarrow> int \<Rightarrow> int \<Rightarrow> token list" where
  "pagesBuilt pageRange currentPage totalPages =
     (let maxPageButtons = (pageRange * 2) + 1 in
      if totalPages \<le> maxPageButtons + 2 then push_all 1 totalPages []
      else
        let leftBound = max 1 (currentPage - pageRange);
            rightBound = min totalPages (currentPage + pageRange);
            pages1 = (if currentPage > pageRange + 1 \<and> totalPages > maxPageButtons + 2
                      then [Page 1] else []);
            pages2 = (if leftBound > 2 then pages1 @ [Ellipsis] else pages1);
            pages3 = push_window totalPages leftBound rightBound pages2;
            pages4 = (if rightBound < totalPages - 1 then pages3 @ [Ellipsis] else pages3)
        in (if totalPages \<noteq> 1 \<and> Page totalPages \<notin> set pages4
            then pages4 @ [Page totalPages] else pages4))"

definition pageNumbersWith :: "int \<Rightarrow> int \<Rightarrow> int \<Rightarrow> token list" where
  "pageNumbersWith pageRange currentPage totalPages =
     Set_add_all [] (pagesBuilt pageRange currentPage totalPages)"

text \<open>The value the component computes: the window is \<open>PAGE_RANGE\<close> pages on each side.\<close>

definition pageNumbers :: "int \<Rightarrow> int \<Rightarrow> token list" where
  "pageNumbers currentPage totalPages = pageNumbersWith PAGE_RANGE currentPage totalPages"

text \<open>The numbers of the \<open>Page\<close> entries of a list, in order.\<close>

fun pageValues :: "token list \<Rightarrow> int list" where
  "pageValues [] = []"
| "pageValues (Page n # ts) = n # pageValues ts"
| "pageValues (Ellipsis # ts) = pageValues ts"

subsection \<open>Memoisation\<close>

text \<open>
  The list is wrapped in \<^verbatim>\<open>useMemo(..., [currentPage, totalPages])\<close>: the hook keeps the
  dependencies and the value of the last computation, returns the kept value when a
  render comes with the same dependencies, and runs the callback again otherwise. A
  render of the component is given by \<^verbatim>\<open>currentPage\<close> and the length of
  \<^verbatim>\<open>allTickets\<close>.
\<close>

type_synonym memo = "((int \<times> int) \<times> token list) option"

definition useMemo_pageNumbers :: "memo \<Rightarrow> int \<Rightarrow> int \<Rightarrow> memo \<times> token list" where
  "useMemo_pageNumbers m currentPage totalPages =
     (case m of
        None \<Rightarrow>
          (let v = pageNumbers currentPage totalPages
           in (Some ((currentPage, totalPages), v), v))
      | Some (deps, cached) \<Rightarrow>
          if deps = (currentPage, totalPages) then (m, cached)
          else (let v = pageNumbers currentPage totalPages
                in (Some ((currentPage, totalPages), v), v)))"

fun renders :: "memo \<Rightarrow> (int \<times> nat) list \<Rightarrow> memo" where
  "renders m [] = m"
| "renders m ((currentPage, len) # rs) =
     renders (fst (useMemo_pageNumbers m currentPage (totalPagesOf len))) rs"

definition rendered :: "(int \<times> nat) list \<Rightarrow> int \<Rightarrow> nat \<Rightarrow> token list" where
  "rendered history currentPage len =
     snd (useMemo_pageNumbers (renders None history) currentPage (totalPagesOf len))"

text \<open>A memo cell is consistent when the value it keeps is the one of its dependencies.\<close>

definition memo_ok :: "memo \<Rightarrow> bool" where
  "memo_ok m =
     (case m of None \<Rightarrow> True
      | Some (deps, cached) \<Rightarrow> cached = pageNumbers (fst deps) (snd deps))"

section \<open>Properties\<close>

subsection \<open>The helper functions\<close>

lemma totalPagesWith_div: "totalPagesWith pageSize len = - ((- int len) div pageSize)"
  unfolding totalPagesWith_def
  using ceiling_divide_eq_div [of "int len" pageSize] by simp

lemma totalPagesWith_zero: "totalPagesWith pageSize 0 = 0"
  by (simp add: totalPagesWith_def)

lemma push_all_eq: "push_all i totalPages pages = pages @ map Page [i..totalPages]"
proof (induction i totalPages pages rule: push_all.induct)
  case (1 i totalPages pages)
  show ?case
  proof (cases "i \<le> totalPages")
    case True
    then have "[i..totalPages] = i # [i + 1..totalPages]"
      by (simp add: upto_rec1)
    with True 1 show ?thesis
      by (simp add: push_all.simps [of i])
  next
    case False
    then show ?thesis
      by (simp add: push_all.simps [of i])
  qed
qed

lemma set_push_window:
  "set (push_window totalPages i rightBound pages) \<subseteq> set pages \<union> Page ` {i..rightBound}"
proof (induction totalPages i rightBound pages rule: push_window.induct)
  case (1 totalPages i rightBound pages)
  show ?case
  proof (cases "i \<le> rightBound")
    case True
    let ?next = "if i \<noteq> 1 \<or> Page 1 \<in> set pages then
             (if i = totalPages \<and> Page totalPages \<in> set pages then pages
              else pages @ [Page i])
           else pages"
    have step: "push_window totalPages i rightBound pages =
        push_window totalPages (i + 1) rightBound ?next"
      using True by (subst push_window.simps) simp
    have "set (push_window totalPages (i + 1) rightBound ?next)
        \<subseteq> set ?next \<union> Page ` {i + 1..rightBound}"
      using 1 [OF True] .
    moreover have "set ?next \<subseteq> set pages \<union> {Page i}"
      by auto
    moreover have "{Page i} \<union> Page ` {i + 1..rightBound} \<subseteq> Page ` {i..rightBound}"
      using True by auto
    ultimately show ?thesis
      unfolding step by blast
  next
    case False
    then show ?thesis
      by (simp add: push_window.simps [of _ i])
  qed
qed

lemma set_Set_add_all: "set (Set_add_all seen xs) = set seen \<union> set xs"
  by (induction xs arbitrary: seen) auto

lemma distinct_Set_add_all: "distinct seen \<Longrightarrow> distinct (Set_add_all seen xs)"
  by (induction xs arbitrary: seen) auto

lemma Set_add_all_distinct: "distinct (seen @ xs) \<Longrightarrow> Set_add_all seen xs = seen @ xs"
  by (induction xs arbitrary: seen) auto

lemma distinct_pageValues: "distinct ts \<Longrightarrow> distinct (pageValues ts)"
proof (induction ts rule: pageValues.induct)
  case (2 n ts)
  have "n \<in> set (pageValues us) \<Longrightarrow> Page n \<in> set us" for us
    by (induction us rule: pageValues.induct) auto
  with 2 show ?case by auto
qed simp_all

lemma push_window_mono: "set pages \<subseteq> set (push_window totalPages i rightBound pages)"
proof (induction totalPages i rightBound pages rule: push_window.induct)
  case (1 totalPages i rightBound pages)
  show ?case
  proof (cases "i \<le> rightBound")
    case True
    let ?next = "if i \<noteq> 1 \<or> Page 1 \<in> set pages then
             (if i = totalPages \<and> Page totalPages \<in> set pages then pages
              else pages @ [Page i])
           else pages"
    have step: "push_window totalPages i rightBound pages =
        push_window totalPages (i + 1) rightBound ?next"
      using True by (subst push_window.simps) simp
    have "set pages \<subseteq> set ?next"
      by auto
    also have "\<dots> \<subseteq> set (push_window totalPages (i + 1) rightBound ?next)"
      using 1 [OF True] .
    finally show ?thesis
      unfolding step .
  next
    case False
    then show ?thesis
      by (simp add: push_window.simps [of _ i])
  qed
qed

text \<open>The loop pushes every number of its range but 1.\<close>

lemma push_window_has:
  "i \<le> j \<Longrightarrow> j \<le> rightBound \<Longrightarrow> j \<noteq> 1
    \<Longrightarrow> Page j \<in> set (push_window totalPages i rightBound pages)"
proof (induction totalPages i rightBound pages rule: push_window.induct)
  case (1 totalPages i rightBound pages)
  from 1(2,3) have True: "i \<le> rightBound"
    by simp
  let ?next = "if i \<noteq> 1 \<or> Page 1 \<in> set pages then
           (if i = totalPages \<and> Page totalPages \<in> set pages then pages
            else pages @ [Page i])
         else pages"
  have step: "push_window totalPages i rightBound pages =
      push_window totalPages (i + 1) rightBound ?next"
    using True by (subst push_window.simps) simp
  show ?case
  proof (cases "j = i")
    case True
    with 1(4) have "Page j \<in> set ?next"
      by auto
    with push_window_mono [of ?next totalPages "i + 1" rightBound] show ?thesis
      unfolding step by blast
  next
    case False
    with 1(2) have "i + 1 \<le> j"
      by simp
    from 1(1) [OF \<open>i \<le> rightBound\<close> this 1(3) 1(4)] show ?thesis
      unfolding step .
  qed
qed

text \<open>The loop never pushes 1 into an array that does not hold it.\<close>

lemma push_window_first_absent:
  "Page 1 \<notin> set pages \<Longrightarrow> Page 1 \<notin> set (push_window totalPages i rightBound pages)"
proof (induction totalPages i rightBound pages rule: push_window.induct)
  case (1 totalPages i rightBound pages)
  show ?case
  proof (cases "i \<le> rightBound")
    case True
    let ?next = "if i \<noteq> 1 \<or> Page 1 \<in> set pages then
             (if i = totalPages \<and> Page totalPages \<in> set pages then pages
              else pages @ [Page i])
           else pages"
    have step: "push_window totalPages i rightBound pages =
        push_window totalPages (i + 1) rightBound ?next"
      using True by (subst push_window.simps) simp
    from 1(2) have "Page 1 \<notin> set ?next"
      by auto
    from 1(1) [OF True this] show ?thesis
      unfolding step .
  next
    case False
    with 1(2) show ?thesis
      by (simp add: push_window.simps [of _ i])
  qed
qed

text \<open>
  The second branch of the callback: the array before the loop holds at most the first
  page and an ellipsis, and the array built is the one the loop returns, with at most an
  ellipsis and the last page after it.
\<close>

lemma pagesBuilt_sparse:
  assumes "\<not> totalPages \<le> pageRange * 2 + 1 + 2"
  obtains pages2 where
    "set pages2 \<subseteq> {Page 1, Ellipsis}"
    "Page 1 \<in> set pages2 \<longleftrightarrow> currentPage > pageRange + 1"
    "set (push_window totalPages (max 1 (currentPage - pageRange))
        (min totalPages (currentPage + pageRange)) pages2)
      \<subseteq> set (pagesBuilt pageRange currentPage totalPages)"
    "set (pagesBuilt pageRange currentPage totalPages)
      \<subseteq> set (push_window totalPages (max 1 (currentPage - pageRange))
          (min totalPages (currentPage + pageRange)) pages2) \<union> {Ellipsis, Page totalPages}"
proof -
  let ?left = "max 1 (currentPage - pageRange)"
  let ?right = "min totalPages (currentPage + pageRange)"
  define pages1 where "pages1 =
    (if currentPage > pageRange + 1 \<and> totalPages > pageRange * 2 + 1 + 2
     then [Page 1] else [])"
  define pages2 where "pages2 = (if ?left > 2 then pages1 @ [Ellipsis] else pages1)"
  define pages3 where "pages3 = push_window totalPages ?left ?right pages2"
  define pages4 where "pages4 =
    (if ?right < totalPages - 1 then pages3 @ [Ellipsis] else pages3)"
  define pages5 where "pages5 =
    (if totalPages \<noteq> 1 \<and> Page totalPages \<notin> set pages4
     then pages4 @ [Page totalPages] else pages4)"
  have built: "pagesBuilt pageRange currentPage totalPages = pages5"
    unfolding pagesBuilt_def Let_def pages5_def pages4_def pages3_def pages2_def pages1_def
    by (simp only: assms if_False)
  have first: "Page 1 \<in> set pages1 \<longleftrightarrow> currentPage > pageRange + 1"
    unfolding pages1_def using assms by auto
  have "set pages1 \<subseteq> {Page 1}"
    unfolding pages1_def by (auto split: if_splits)
  then have a: "set pages2 \<subseteq> {Page 1, Ellipsis}"
    unfolding pages2_def by (auto split: if_splits)
  have b: "Page 1 \<in> set pages2 \<longleftrightarrow> currentPage > pageRange + 1"
    unfolding pages2_def using first by (auto split: if_splits)
  have "set pages3 \<subseteq> set pages4"
    unfolding pages4_def by (auto split: if_splits)
  also have "\<dots> \<subseteq> set pages5"
    unfolding pages5_def by (auto split: if_splits)
  finally have c: "set pages3 \<subseteq> set pages5" .
  have "set pages4 \<subseteq> set pages3 \<union> {Ellipsis}"
    unfolding pages4_def by (auto split: if_splits)
  moreover have "set pages5 \<subseteq> set pages4 \<union> {Page totalPages}"
    unfolding pages5_def by (auto split: if_splits)
  ultimately have d: "set pages5 \<subseteq> set pages3 \<union> {Ellipsis, Page totalPages}"
    by blast
  from a b c d show thesis
    unfolding pages3_def built [symmetric] by (rule that)
qed

lemma set_pagesBuilt:
  assumes "1 \<le> totalPages"
  shows "set (pagesBuilt pageRange currentPage totalPages) \<subseteq> insert Ellipsis (Page ` {1..totalPages})"
proof (cases "totalPages \<le> pageRange * 2 + 1 + 2")
  case True
  then show ?thesis
    by (auto simp: pagesBuilt_def push_all_eq)
next
  case False
  let ?left = "max 1 (currentPage - pageRange)"
  let ?right = "min totalPages (currentPage + pageRange)"
  from False obtain pages2 where
    start: "set pages2 \<subseteq> {Page 1, Ellipsis}" and
    built: "set (pagesBuilt pageRange currentPage totalPages)
      \<subseteq> set (push_window totalPages ?left ?right pages2) \<union> {Ellipsis, Page totalPages}"
    by (rule pagesBuilt_sparse)
  have "set (push_window totalPages ?left ?right pages2)
      \<subseteq> set pages2 \<union> Page ` {1..totalPages}"
    using set_push_window [of totalPages ?left ?right pages2] by auto
  moreover have "Page 1 \<in> Page ` {1..totalPages}" and "Page totalPages \<in> Page ` {1..totalPages}"
    using assms by auto
  ultimately show ?thesis
    using start built by blast
qed

text \<open>
  What the window loop gives in the second branch: every page of the window but page 1
  is in the list, and page 1 is in the list only as the leading entry, that is, when the
  current page is beyond \<open>pageRange + 1\<close>.
\<close>

lemma window_pages_present:
  assumes "2 * pageRange + 3 < totalPages"
    and "max 1 (currentPage - pageRange) \<le> j" and "j \<le> min totalPages (currentPage + pageRange)"
    and "j \<noteq> 1"
  shows "Page j \<in> set (pageNumbersWith pageRange currentPage totalPages)"
proof -
  let ?left = "max 1 (currentPage - pageRange)"
  let ?right = "min totalPages (currentPage + pageRange)"
  from assms(1) have "\<not> totalPages \<le> pageRange * 2 + 1 + 2"
    by simp
  then obtain pages2 where
    "set (push_window totalPages ?left ?right pages2)
      \<subseteq> set (pagesBuilt pageRange currentPage totalPages)"
    by (rule pagesBuilt_sparse)
  with push_window_has [OF assms(2,3,4), of totalPages pages2] show ?thesis
    by (auto simp: pageNumbersWith_def set_Set_add_all)
qed

lemma first_page_absent:
  assumes "0 \<le> pageRange" and "2 * pageRange + 3 < totalPages"
    and "currentPage \<le> pageRange + 1"
  shows "Page 1 \<notin> set (pageNumbersWith pageRange currentPage totalPages)"
proof -
  let ?left = "max 1 (currentPage - pageRange)"
  let ?right = "min totalPages (currentPage + pageRange)"
  from assms(2) have "\<not> totalPages \<le> pageRange * 2 + 1 + 2"
    by simp
  then obtain pages2 where
    first: "Page 1 \<in> set pages2 \<longleftrightarrow> currentPage > pageRange + 1" and
    built: "set (pagesBuilt pageRange currentPage totalPages)
      \<subseteq> set (push_window totalPages ?left ?right pages2) \<union> {Ellipsis, Page totalPages}"
    by (rule pagesBuilt_sparse)
  from first assms(3) have "Page 1 \<notin> set pages2"
    by simp
  then have "Page 1 \<notin> set (push_window totalPages ?left ?right pages2)"
    by (rule push_window_first_absent)
  moreover from assms(1,2) have "totalPages \<noteq> 1"
    by simp
  ultimately have "Page 1 \<notin> set (pagesBuilt pageRange currentPage totalPages)"
    using built by auto
  then show ?thesis
    by (simp add: pageNumbersWith_def set_Set_add_all)
qed

text \<open>The list never holds the same entry twice; in particular it has at most one ellipsis.\<close>

lemma distinct_pageNumbersWith: "distinct (pageNumbersWith pageRange currentPage totalPages)"
  unfolding pageNumbersWith_def by (rule distinct_Set_add_all) simp

lemma distinct_count_list: "distinct xs \<Longrightarrow> count_list xs x \<le> 1"
  by (induction xs) (auto simp: count_list_0_iff)

lemma at_most_one_ellipsis:
  "count_list (pageNumbersWith pageRange currentPage totalPages) Ellipsis \<le> 1"
  by (rule distinct_count_list) (rule distinct_pageNumbersWith)

lemma useMemo_pageNumbers_ok:
  assumes "memo_ok m"
  shows "memo_ok (fst (useMemo_pageNumbers m currentPage totalPages))"
    and "snd (useMemo_pageNumbers m currentPage totalPages) = pageNumbers currentPage totalPages"
  using assms
  by (auto simp: memo_ok_def useMemo_pageNumbers_def Let_def split: option.splits prod.splits)

lemma renders_ok: "memo_ok m \<Longrightarrow> memo_ok (renders m history)"
  by (induction m history rule: renders.induct) (simp_all add: useMemo_pageNumbers_ok)

lemma rendered_eq: "rendered history currentPage len = pageNumbers currentPage (totalPagesOf len)"
proof -
  have "memo_ok None"
    by (simp add: memo_ok_def)
  then have "memo_ok (renders None history)"
    by (rule renders_ok)
  then show ?thesis
    unfolding rendered_def by (rule useMemo_pageNumbers_ok)
qed

lemmas pager_defs =
  pageNumbers_def pageNumbersWith_def pagesBuilt_def PAGE_RANGE_def
  totalPagesOf_def totalPagesWith_def ITEMS_PER_PAGE_def

subsection \<open>The window of the sparse case\<close>

text \<open>
  C1. The claim: when there are more than \<open>2 * pageRange + 3\<close> pages, every page of the
  window around the current page is in the list. On the first page of ten (100 tickets)
  the window is 1 to 3, and the list does not hold page 1: the guard of the loop lets 1
  through only when the array holds it already.
\<close>

theorem window_misses_first_page:
  "totalPagesOf 100 > 2 * PAGE_RANGE + 3
   \<and> max 1 (1 - PAGE_RANGE) \<le> 1 \<and> 1 \<le> min (totalPagesOf 100) (1 + PAGE_RANGE)
   \<and> Page 1 \<notin> set (pageNumbers 1 (totalPagesOf 100))
   \<and> Page 2 \<in> set (pageNumbers 1 (totalPagesOf 100))
   \<and> Page 3 \<in> set (pageNumbers 1 (totalPagesOf 100))"
  by (simp add: pager_defs push_window.simps)

text \<open>
  C2. The claim: 100 tickets on the first page give the entries 1, 2, 3, an ellipsis
  and 10. The component gives them without the entry 1.
\<close>

theorem scenario_first_page:
  "pageNumbers 1 (totalPagesOf 100) = [Page 2, Page 3, Ellipsis, Page 10]"
  by (simp add: pager_defs push_window.simps)

subsection \<open>The ellipses\<close>

text \<open>
  C3. The claim: when the array gets an ellipsis on each side of the window, both are
  in the result. On page 5 of 10 the array built has two, and the result has one: the
  \<^verbatim>\<open>Set\<close> of the last line takes the second \<^verbatim>\<open>'...'\<close> for a duplicate of the first.
\<close>

theorem second_ellipsis_removed:
  "count_list (pagesBuilt PAGE_RANGE 5 10) Ellipsis = 2
   \<and> count_list (pageNumbers 5 10) Ellipsis = 1"
  by (simp add: pager_defs push_window.simps)

text \<open>
  C4. The claim: 100 tickets on page 5 give 1, an ellipsis, 3 to 7, an ellipsis and 10.
  The component gives them without the second ellipsis.
\<close>

theorem scenario_middle_page:
  "pageNumbers 5 (totalPagesOf 100) =
     [Page 1, Ellipsis, Page 3, Page 4, Page 5, Page 6, Page 7, Page 10]"
  by (simp add: pager_defs push_window.simps)

subsection \<open>Few pages\<close>

text \<open>
  C5. When there are at most \<open>2 * pageRange + 3\<close> pages, the list is every page from 1
  to the last, in order, and has no ellipsis, whatever the current page.
\<close>

theorem dense_case_all_pages:
  assumes "totalPages \<le> 2 * pageRange + 3"
  shows "pageNumbersWith pageRange currentPage totalPages = map Page [1..totalPages]
    \<and> Ellipsis \<notin> set (pageNumbersWith pageRange currentPage totalPages)"
proof -
  have "pagesBuilt pageRange currentPage totalPages = map Page [1..totalPages]"
    using assms by (simp add: pagesBuilt_def push_all_eq)
  moreover have "distinct (map Page [1..totalPages])"
    by (simp add: distinct_map inj_on_def)
  ultimately have "pageNumbersWith pageRange currentPage totalPages = map Page [1..totalPages]"
    using Set_add_all_distinct [of "[]" "map Page [1..totalPages]"]
    by (simp add: pageNumbersWith_def)
  then show ?thesis
    by auto
qed

theorem dense_case_all_pages_witness:
  "(5::int) \<le> 2 * PAGE_RANGE + 3
   \<and> pageNumbers 3 (totalPagesOf 45) = [Page 1, Page 2, Page 3, Page 4, Page 5]
   \<and> Ellipsis \<notin> set (pageNumbers 3 (totalPagesOf 45))"
proof -
  have five: "totalPagesOf 45 = 5"
    by (simp add: totalPagesOf_def totalPagesWith_def ITEMS_PER_PAGE_def)
  have small: "(5::int) \<le> 2 * 2 + 3"
    by simp
  have "[1..5::int] = [1, 2, 3, 4, 5]"
    by (simp add: upto.simps)
  with dense_case_all_pages [OF small, of 3] five show ?thesis
    by (simp add: pageNumbers_def PAGE_RANGE_def)
qed

text \<open>
  C6. With no ticket there is no page, and the list is empty, for every current page,
  every page size from 1 and every window size from 0.
\<close>

theorem no_items_no_entries:
  assumes "1 \<le> pageSize" and "0 \<le> pageRange"
  shows "pageNumbersWith pageRange currentPage (totalPagesWith pageSize 0) = []"
  using assms
  by (simp add: pageNumbersWith_def pagesBuilt_def totalPagesWith_zero push_all_eq)

theorem no_items_no_entries_witness:
  "1 \<le> ITEMS_PER_PAGE \<and> 0 \<le> PAGE_RANGE \<and> pageNumbers 7 (totalPagesOf 0) = []"
proof -
  have size: "1 \<le> ITEMS_PER_PAGE" and range: "0 \<le> PAGE_RANGE"
    by (simp_all add: ITEMS_PER_PAGE_def PAGE_RANGE_def)
  from no_items_no_entries [OF size range, of 7] size range show ?thesis
    by (simp add: pageNumbers_def totalPagesOf_def)
qed

subsection \<open>Invariants of the list\<close>

text \<open>
  C7. No two \<open>Page\<close> entries of the list have the same number. This holds for every
  current page, number of tickets, page size and window size, also outside the
  precondition of the planner.
\<close>

theorem no_duplicate_pages:
  "distinct (pageValues (pageNumbersWith pageRange currentPage (totalPagesWith pageSize totalItems)))"
  unfolding pageNumbersWith_def
  by (rule distinct_pageValues, rule distinct_Set_add_all) simp

text \<open>
  C8. The list shown is determined by the current page and the number of tickets: after
  any two histories of renders, a render with the same current page and the same number
  of tickets shows the same list, entry by entry. The memo cell never returns a value
  computed for other inputs.
\<close>

theorem rendered_deterministic:
  "rendered history1 currentPage len = rendered history2 currentPage len"
  by (simp add: rendered_eq)

text \<open>
  C9. A request for a page below 1 or above the last page leaves the current page as
  it is, and so does a request for the current page itself.
\<close>

theorem handlePageChange_noop:
  "(page < 1 \<or> page > totalPages \<longrightarrow> handlePageChange totalPages currentPage page = currentPage)
   \<and> handlePageChange totalPages currentPage currentPage = currentPage"
  by (simp add: handlePageChange_def)

theorem handlePageChange_noop_witness:
  "((11::int) < 1 \<or> (11::int) > 10)
   \<and> handlePageChange 10 3 11 = 3 \<and> handlePageChange 10 3 0 = 3
   \<and> handlePageChange 10 3 3 = 3"
  using handlePageChange_noop [of 11 10 3] handlePageChange_noop [of 0 10 3]
  by simp

text \<open>
  C10. When there is at least one page, every \<open>Page\<close> entry of the list is a page
  between 1 and the last page, whatever the current page and the window size.
\<close>

theorem pages_in_range:
  assumes "1 \<le> totalPages" and "Page n \<in> set (pageNumbersWith pageRange currentPage totalPages)"
  shows "1 \<le> n \<and> n \<le> totalPages"
proof -
  from assms(2) have "Page n \<in> set (pagesBuilt pageRange currentPage totalPages)"
    by (simp add: pageNumbersWith_def set_Set_add_all)
  with set_pagesBuilt [OF assms(1)] have "Page n \<in> Page ` {1..totalPages}"
    by blast
  then show ?thesis
    by auto
qed

theorem pages_in_range_witness:
  "(1::int) \<le> 10 \<and> Page 7 \<in> set (pageNumbers 5 10) \<and> (1::int) \<le> 7 \<and> (7::int) \<le> 10"
proof -
  have total: "(1::int) \<le> 10"
    by simp
  have entry: "Page 7 \<in> set (pageNumbersWith 2 5 10)"
    by (simp add: pageNumbersWith_def pagesBuilt_def push_window.simps)
  from pages_in_range [OF total entry] entry show ?thesis
    by (simp add: pageNumbers_def PAGE_RANGE_def)
qed

end
